theory Spec2Isabelle
  imports Main
begin

section \<open>Gesture recognizer (the script embedded in mute\_studentpage.py)\<close>

text \<open>
  The recognition loop of \<^verbatim>\<open>MEDIAPIPE_SCRIPT\<close>. One iteration reads a video frame,
  asks the landmark detector for the hands in it, and runs the debounce machine. The
  landmark detector and \<^verbatim>\<open>count_fingers_simple\<close> work on floating-point
  coordinates; a frame of the model carries what they return: the finger count of
  each detected hand. Clock readings are integers in milliseconds, so the upload
  cooldown of 2 seconds is 2000.
\<close>

definition FINGER_SIGNS :: "(int \<times> string) list" where
  "FINGER_SIGNS =
     [(1, ''HELLO''), (2, ''PLEASE''), (3, ''RPEPEAT THAT''), (4, ''I DID NOT UNDERSTAND''),
      (5, ''STOP''), (6, ''THANKS''), (7, ''GREAT''), (8, ''GOT IT ''), (9, ''YES''),
      (10, ''GOOD'')]"

definition sign_text_of :: "int \<Rightarrow> string" where
  \<comment> \<open>\<^verbatim>\<open>FINGER_SIGNS.get(smoothed_count, "UNKNOWN")\<close>\<close>
  "sign_text_of n = (case map_of FINGER_SIGNS n of Some s \<Rightarrow> s | None \<Rightarrow> ''UNKNOWN'')"

definition REPEAT_THRESHOLD :: nat where
  "REPEAT_THRESHOLD = 10"

definition upload_cooldown :: int where
  "upload_cooldown = 2000"

datatype key = NoKey | KeyQ | KeyC

record frame =
  hands :: "int list"  \<comment> \<open>finger count of each hand in \<^verbatim>\<open>multi_hand_landmarks\<close>; empty when none\<close>
  pressed :: key       \<comment> \<open>what \<^verbatim>\<open>cv2.waitKey(1)\<close> returns after the frame is shown\<close>
  clock :: int         \<comment> \<open>\<^verbatim>\<open>time.time()\<close> at this frame\<close>

record recognizer =
  sentence :: string
  finger_count_queue :: "int list"
  last_finger_count :: int
  repeat_count :: nat
  last_upload_time :: int

definition recognizer_init :: recognizer where
  "recognizer_init =
     \<lparr>sentence = [], finger_count_queue = [], last_finger_count = - 1, repeat_count = 0,
      last_upload_time = 0\<rparr>"

record frame_out =
  shown_count :: "int option"   \<comment> \<open>the smoothed count drawn on the frame; None for "Show your hands"\<close>
  recognized :: "string option" \<comment> \<open>the token committed by this frame\<close>
  uploaded :: "string list"     \<comment> \<open>sentences passed to \<^verbatim>\<open>upload_to_firebase\<close>, in order\<close>

definition deque_append :: "nat \<Rightarrow> 'a list \<Rightarrow> 'a \<Rightarrow> 'a list" where
  \<comment> \<open>\<^verbatim>\<open>deque(maxlen=n).append(x)\<close>: a full deque drops its leftmost element\<close>
  "deque_append n q x = (if length q < n then q @ [x] else tl q @ [x])"

fun max_by_count :: "int list \<Rightarrow> int list \<Rightarrow> int option" where
  \<comment> \<open>\<^verbatim>\<open>max(it, key=q.count)\<close>: the first element of the iteration with the largest count\<close>
  "max_by_count q [] = None"
| "max_by_count q (x # xs) =
     (case max_by_count q xs of
        None \<Rightarrow> Some x
      | Some y \<Rightarrow> if count_list q y > count_list q x then Some y else Some x)"

definition smoothed_count_of :: "(int list \<Rightarrow> int list) \<Rightarrow> int list \<Rightarrow> int \<Rightarrow> int" where
  \<comment> \<open>\<^verbatim>\<open>max(set(q), key=q.count) if len(q) == 5 else current_finger_count\<close>. The order in
      which a Python set is iterated is not fixed by the language; \<open>set_iter\<close> gives it.\<close>
  "smoothed_count_of set_iter q cur =
     (if length q = 5 then (case max_by_count q (set_iter q) of Some m \<Rightarrow> m | None \<Rightarrow> cur)
      else cur)"

definition process_frame ::
  "(int list \<Rightarrow> int list) \<Rightarrow> recognizer \<Rightarrow> frame \<Rightarrow> frame_out \<times> recognizer" where
  "process_frame set_iter st f =
     (if hands f = [] then
        (\<lparr>shown_count = None, recognized = None, uploaded = []\<rparr>, st)
      else
        let total_fingers = sum_list (hands f);
            current_finger_count = min total_fingers 10;
            q = deque_append 5 (finger_count_queue st) current_finger_count;
            smoothed_count = smoothed_count_of set_iter q current_finger_count;
            sign_text = sign_text_of smoothed_count;
            st1 = (if smoothed_count = last_finger_count st
                   then st\<lparr>finger_count_queue := q, repeat_count := repeat_count st + 1\<rparr>
                   else st\<lparr>finger_count_queue := q, repeat_count := 0,
                           last_finger_count := smoothed_count\<rparr>)
        in if repeat_count st1 = REPEAT_THRESHOLD \<and> smoothed_count > 0 then
             let sentence' = sentence st1 @ sign_text @ '' '';
                 st2 = st1\<lparr>sentence := sentence', repeat_count := 0\<rparr>
             in if clock f - last_upload_time st2 \<ge> upload_cooldown then
                  (\<lparr>shown_count = Some smoothed_count, recognized = Some sign_text,
                    uploaded = [sentence']\<rparr>, st2\<lparr>last_upload_time := clock f\<rparr>)
                else
                  (\<lparr>shown_count = Some smoothed_count, recognized = Some sign_text,
                    uploaded = []\<rparr>, st2)
           else
             (\<lparr>shown_count = Some smoothed_count, recognized = None, uploaded = []\<rparr>, st1))"

definition handle_key :: "recognizer \<Rightarrow> frame_out \<Rightarrow> key \<Rightarrow> frame_out \<times> recognizer" where
  \<comment> \<open>the 'c' key clears the sentence and uploads the empty sentence at once\<close>
  "handle_key st out k =
     (if k = KeyC then (out\<lparr>uploaded := uploaded out @ [[]]\<rparr>, st\<lparr>sentence := []\<rparr>)
      else (out, st))"

fun recognize :: "(int list \<Rightarrow> int list) \<Rightarrow> recognizer \<Rightarrow> frame list \<Rightarrow> frame_out list" where
  \<comment> \<open>the \<^verbatim>\<open>while True\<close> loop over the frames the camera delivers; 'q' leaves the loop\<close>
  "recognize set_iter st [] = []"
| "recognize set_iter st (f # fs) =
     (let (out, st1) = process_frame set_iter st f in
      if pressed f = KeyQ then [out]
      else let (out', st2) = handle_key st1 out (pressed f)
           in out' # recognize set_iter st2 fs)"

fun state_after :: "(int list \<Rightarrow> int list) \<Rightarrow> recognizer \<Rightarrow> frame list \<Rightarrow> recognizer" where
  \<comment> \<open>the variables of the loop after it has gone through the frames without leaving\<close>
  "state_after set_iter st [] = st"
| "state_after set_iter st (f # fs) =
     (let (out, st1) = process_frame set_iter st f;
          (out', st2) = handle_key st1 out (pressed f)
      in state_after set_iter st2 fs)"

definition three_fingers :: frame where
  \<comment> \<open>a frame showing one hand with three fingers raised, no key pressed, 5 seconds
      after the start\<close>
  "three_fingers = \<lparr>hands = [3], pressed = NoKey, clock = 5000\<rparr>"

section \<open>Python string operations\<close>

text \<open>
  Text is ASCII: a \<^typ>\<open>string\<close> is a list of 8-bit characters, one per code point.
  \<^verbatim>\<open>str.split()\<close> and \<^verbatim>\<open>str.strip()\<close> without arguments work on the ASCII
  whitespace characters.
\<close>

definition py_isspace :: "char \<Rightarrow> bool" where
  "py_isspace c =
     (c \<in> set [CHR 0x20, CHR 0x09, CHR 0x0A, CHR 0x0B, CHR 0x0C, CHR 0x0D,
               CHR 0x1C, CHR 0x1D, CHR 0x1E, CHR 0x1F])"

definition py_strip :: "string \<Rightarrow> string" where
  "py_strip s = rev (dropWhile py_isspace (rev (dropWhile py_isspace s)))"

fun split_from :: "string \<Rightarrow> string \<Rightarrow> string list" where
  \<comment> \<open>\<open>cur\<close> is the word being read\<close>
  "split_from cur [] = (if cur = [] then [] else [cur])"
| "split_from cur (c # cs) =
     (if py_isspace c then (if cur = [] then split_from [] cs else cur # split_from [] cs)
      else split_from (cur @ [c]) cs)"

definition py_split :: "string \<Rightarrow> string list" where
  "py_split s = split_from [] s"

definition py_lower_char :: "char \<Rightarrow> char" where
  "py_lower_char c =
     (case map_of (zip ''ABCDEFGHIJKLMNOPQRSTUVWXYZ'' ''abcdefghijklmnopqrstuvwxyz'') c of
        Some d \<Rightarrow> d | None \<Rightarrow> c)"

definition py_lower :: "string \<Rightarrow> string" where
  "py_lower s = map py_lower_char s"

fun py_join :: "string \<Rightarrow> string list \<Rightarrow> string" where
  "py_join sep [] = []"
| "py_join sep [w] = w"
| "py_join sep (w # ws) = w @ sep @ py_join sep ws"

function py_replace :: "string \<Rightarrow> string \<Rightarrow> string \<Rightarrow> string" where
  \<comment> \<open>\<^verbatim>\<open>s.replace(old, new)\<close> for a non-empty \<open>old\<close>: leftmost matches, not overlapping\<close>
  "py_replace old new [] = []"
| "py_replace old new (c # cs) =
     (if old \<noteq> [] \<and> take (length old) (c # cs) = old
      then new @ py_replace old new (drop (length old) (c # cs))
      else c # py_replace old new cs)"
  by pat_completeness auto
termination
  by (relation "measure (\<lambda>(old, new, s). length s)") (auto simp: neq_Nil_conv)

section \<open>Streaming transcriber (WhisperSTTProcessor in deaf\_student\_page.py)\<close>

text \<open>
  An audio chunk is the list of its samples. The speech-to-text engine is a parameter:
  it either raises or returns the text of its result. Clock readings are in
  milliseconds. The two comparisons of a quotient with a floating-point constant,
  \<^verbatim>\<open>len(unique_words) / len(words) < 0.3\<close> and \<^verbatim>\<open>intersection / union > 0.7\<close>, are
  written as the integer comparisons \<open>10 * u < 3 * n\<close> and \<open>10 * i > 7 * n\<close>: at the
  sizes of a transcript the rounded quotient compares with the rounded constant as the
  exact fraction does with 3/10 and 7/10.
\<close>

datatype transcribe_result = Raised | Text string

record stt =
  model_loaded :: bool
  is_loading :: bool
  audio_buffer :: "int list list"
  last_processing_time :: int
  last_transcription :: string

definition sample_rate :: nat where
  "sample_rate = 16000"

definition buffer_duration :: nat where
  "buffer_duration = 3"

definition processing_interval :: int where
  "processing_interval = 2000"

fun unique_in_order :: "string list \<Rightarrow> string list \<Rightarrow> string list" where
  \<comment> \<open>the loop that keeps the first occurrence of every word\<close>
  "unique_in_order seen [] = []"
| "unique_in_order seen (w # ws) =
     (if w \<in> set seen then unique_in_order seen ws else w # unique_in_order (w # seen) ws)"

definition clean_transcription :: "string \<Rightarrow> string" where
  "clean_transcription text =
     (if text = [] then []
      else
        let words = py_split text;
            text1 = (if length words > 10 \<and> 10 * length (remdups words) < 3 * length words
                     then py_join '' '' (take 20 (unique_in_order [] words))
                     else text);
            text2 = py_replace '' . . .'' ''...'' text1;
            text3 = py_replace ''..'' ''.'' text2;
            text4 = py_replace ''  '' '' '' text3
        in py_strip text4)"

definition word_set :: "string \<Rightarrow> string list" where
  \<comment> \<open>\<^verbatim>\<open>set(text.lower().split())\<close>, as a list without duplicates\<close>
  "word_set text = remdups (py_split (py_lower text))"

definition intersection_size :: "string list \<Rightarrow> string list \<Rightarrow> nat" where
  "intersection_size words1 words2 = length (filter (\<lambda>w. w \<in> set words2) words1)"

definition union_size :: "string list \<Rightarrow> string list \<Rightarrow> nat" where
  "union_size words1 words2 = length (remdups (words1 @ words2))"

definition is_too_similar :: "string \<Rightarrow> string \<Rightarrow> bool" where
  "is_too_similar text1 text2 =
     (if text1 = [] \<or> text2 = [] then False
      else
        let words1 = word_set text1; words2 = word_set text2 in
        if words1 = [] \<or> words2 = [] then False
        else
          let intersection = intersection_size words1 words2;
              union = union_size words1 words2
          in if union = 0 then False else 10 * intersection > 7 * union)"

definition add_audio_chunk :: "stt \<Rightarrow> int list \<Rightarrow> int \<Rightarrow> bool \<times> stt" where
  \<comment> \<open>returns whether a \<open>process_buffer\<close> job was started\<close>
  "add_audio_chunk st audio_np current_time =
     (if \<not> model_loaded st \<or> is_loading st then (False, st)
      else
        let st1 = st\<lparr>audio_buffer := audio_buffer st @ [audio_np]\<rparr>;
            total_samples = sum_list (map length (audio_buffer st1))
        in (total_samples \<ge> sample_rate * buffer_duration
              \<and> current_time - last_processing_time st1 \<ge> processing_interval, st1))"

definition process_buffer ::
  "(int list \<Rightarrow> transcribe_result) \<Rightarrow> int \<Rightarrow> stt \<Rightarrow> string option \<times> stt" where
  \<comment> \<open>returns the text given to \<^verbatim>\<open>transcription_ready.emit\<close>, if any\<close>
  "process_buffer transcribe now st =
     (if \<not> model_loaded st \<or> audio_buffer st = [] then (None, st)
      else
        let audio = concat (audio_buffer st) in
        if 10 * length audio < sample_rate * 8 then (None, st)
        else
          case transcribe audio of
            Raised \<Rightarrow> (None, st\<lparr>audio_buffer := []\<rparr>)
          | Text raw \<Rightarrow>
              let text = py_strip raw in
              if text = [] then (None, st)
              else
                let text = clean_transcription text in
                if is_too_similar text (last_transcription st) then (None, st)
                else
                  let keep_samples = sample_rate;
                      kept = (if length audio > keep_samples
                              then drop (length audio - keep_samples) audio else audio)
                  in (Some text,
                      st\<lparr>last_transcription := text, audio_buffer := [kept],
                         last_processing_time := now\<rparr>))"

definition heard :: "string \<Rightarrow> stt" where
  \<comment> \<open>a transcriber with 20000 buffered samples whose last accepted text is \<open>t\<close>\<close>
  "heard t =
     \<lparr>model_loaded = True, is_loading = False, audio_buffer = [replicate 20000 0],
      last_processing_time = 0, last_transcription = t\<rparr>"

section \<open>Visualization chunk controller (StudentPage in deaf\_student\_page.py)\<close>

text \<open>
  The fields of \<^verbatim>\<open>StudentPage\<close> that the chunker and the cache use. The cache is a
  Python dict, which keeps its keys in insertion order: an association list with
  distinct keys. A key is the value of \<^verbatim>\<open>hash(chunk_text[:50])\<close>; Python's string hash
  is a parameter. The concept generator and the renderer are external: one value says
  how the two calls ended.
\<close>

record 'p viz =
  word_buffer :: "string list"
  total_words_processed :: int
  last_visualization_time :: int
  is_generating_visual :: bool
  visual_cache :: "(int \<times> 'p) list"

definition word_count_threshold :: nat where
  "word_count_threshold = 20"

definition visualization_cooldown :: int where
  "visualization_cooldown = 10000"

definition viz_init :: "'p viz" where
  "viz_init =
     \<lparr>word_buffer = [], total_words_processed = 0, last_visualization_time = 0,
      is_generating_visual = False, visual_cache = []\<rparr>"

definition process_for_visualization :: "'p viz \<Rightarrow> string \<Rightarrow> int \<Rightarrow> string option \<times> 'p viz" where
  \<comment> \<open>returns the chunk text passed to \<^verbatim>\<open>generate_visualization\<close>, if any\<close>
  "process_for_visualization st transcript current_time =
     (if current_time - last_visualization_time st < visualization_cooldown
           \<or> is_generating_visual st then (None, st)
      else
        let words = py_split transcript;
            new_word_count = length words
        in if new_word_count = 0 then (None, st)
           else
             let st1 = st\<lparr>word_buffer := word_buffer st @ words,
                         total_words_processed := total_words_processed st + int new_word_count\<rparr>
             in if length (word_buffer st1) \<ge> word_count_threshold then
                  let chunks_needed = total_words_processed st1 div int word_count_threshold;
                      chunks_generated =
                        (total_words_processed st1 - int (length (word_buffer st1)))
                          div int word_count_threshold
                  in if chunks_needed > chunks_generated then
                       let chunk_words = take word_count_threshold (word_buffer st1);
                           chunk_text = py_join '' '' chunk_words
                       in (Some chunk_text,
                           st1\<lparr>word_buffer := drop word_count_threshold (word_buffer st1),
                               last_visualization_time := current_time,
                               is_generating_visual := True\<rparr>)
                     else (None, st1)
                else (None, st1))"

definition reset_generation_flag :: "'p viz \<Rightarrow> 'p viz" where
  "reset_generation_flag st = st\<lparr>is_generating_visual := False\<rparr>"

datatype 'p render = ConceptRaised | NoConcept | RenderRaised | NullPixmap | Pixmap 'p

datatype 'p display = Shown 'p | Fallback

fun dict_set :: "'k \<Rightarrow> 'v \<Rightarrow> ('k \<times> 'v) list \<Rightarrow> ('k \<times> 'v) list" where
  \<comment> \<open>\<^verbatim>\<open>d[k] = v\<close>: a present key keeps its place, a new key goes to the end\<close>
  "dict_set k v [] = [(k, v)]"
| "dict_set k v ((k', v') # kvs) =
     (if k = k' then (k, v) # kvs else (k', v') # dict_set k v kvs)"

definition generate_visual_async ::
  "(int \<times> 'p) list \<Rightarrow> int \<Rightarrow> 'p render \<Rightarrow> 'p display \<times> (int \<times> 'p) list" where
  \<comment> \<open>the cache before, the cache key, how generation ended; returns what is displayed and
      the cache after. \<^verbatim>\<open>pop(next(iter(cache)))\<close> removes the first key.\<close>
  "generate_visual_async cache cache_key outcome =
     (case outcome of
        Pixmap pixmap \<Rightarrow>
          let cache1 = dict_set cache_key pixmap cache;
              cache2 = (if length cache1 > 10 then tl cache1 else cache1)
          in (Shown pixmap, cache2)
      | _ \<Rightarrow> (Fallback, cache))"

definition generate_visualization ::
  "(string \<Rightarrow> int) \<Rightarrow> (int \<times> 'p) list \<Rightarrow> string \<Rightarrow> 'p render \<Rightarrow> 'p display \<times> (int \<times> 'p) list" where
  "generate_visualization hash cache chunk_text outcome =
     (let cache_key = hash (take 50 chunk_text) in
      case map_of cache cache_key of
        Some pixmap \<Rightarrow> (Shown pixmap, cache)
      | None \<Rightarrow> generate_visual_async cache cache_key outcome)"

fun cache_insertions :: "(int \<times> 'p) list \<Rightarrow> (int \<times> 'p) list \<Rightarrow> (int \<times> 'p) list" where
  \<comment> \<open>successful generations for the given keys, one after the other\<close>
  "cache_insertions cache [] = cache"
| "cache_insertions cache ((k, p) # kps) =
     cache_insertions (snd (generate_visual_async cache k (Pixmap p))) kps"

section \<open>Speech output queue (TextToSpeechEngine in teacher\_page.py)\<close>

text \<open>
  The consumer thread is a loop of iterations; the model runs them one after the other
  on a clock in milliseconds, with every \<^verbatim>\<open>time.sleep\<close> lasting what it asks for.
  The synthesis call \<^verbatim>\<open>speaker.Speak(word, 1)\<close> is external: \<open>speak_ok\<close> says for
  which texts it returns rather than raises. The log holds every call with its start
  time.
\<close>

record tts =
  word_queue :: "string list"
  is_speaking :: bool
  tts_clock :: nat
  speak_calls :: "(nat \<times> string) list"

definition tts_init :: tts where
  "tts_init = \<lparr>word_queue = [], is_speaking = False, tts_clock = 0, speak_calls = []\<rparr>"

definition speak :: "tts \<Rightarrow> string \<Rightarrow> tts" where
  "speak st word =
     (if py_strip word \<noteq> [] \<and> length (py_strip word) > 1
      then st\<lparr>word_queue := word_queue st @ [py_strip word]\<rparr> else st)"

definition pacing_delay :: "string \<Rightarrow> nat" where
  \<comment> \<open>\<^verbatim>\<open>0.5 + len(word) * 0.1\<close> seconds\<close>
  "pacing_delay word = 500 + length word * 100"

definition process_queue_step :: "(string \<Rightarrow> bool) \<Rightarrow> tts \<Rightarrow> tts" where
  \<comment> \<open>one iteration of the \<^verbatim>\<open>while self.running\<close> loop\<close>
  "process_queue_step speak_ok st =
     (let st1 =
        (if word_queue st \<noteq> [] \<and> \<not> is_speaking st then
           let word = hd (word_queue st);
               st2 = st\<lparr>word_queue := tl (word_queue st), is_speaking := True,
                       speak_calls := speak_calls st @ [(tts_clock st, word)]\<rparr>;
               st3 = (if speak_ok word then st2\<lparr>tts_clock := tts_clock st2 + pacing_delay word\<rparr>
                      else st2)
           in st3\<lparr>is_speaking := False\<rparr>
         else st)
      in st1\<lparr>tts_clock := tts_clock st1 + 50\<rparr>)"

fun process_queue :: "(string \<Rightarrow> bool) \<Rightarrow> nat \<Rightarrow> tts \<Rightarrow> tts" where
  \<comment> \<open>the loop, stopped after \<open>n\<close> iterations by \<^verbatim>\<open>stop()\<close>\<close>
  "process_queue speak_ok 0 st = st"
| "process_queue speak_ok (Suc n) st = process_queue speak_ok n (process_queue_step speak_ok st)"

fun paced :: "(string \<Rightarrow> bool) \<Rightarrow> (nat \<times> string) list \<Rightarrow> bool" where
  \<comment> \<open>every call that returned is followed, if at all, only after its pacing delay\<close>
  "paced speak_ok [] = True"
| "paced speak_ok [c] = True"
| "paced speak_ok ((t1, w1) # (t2, w2) # cs) =
     ((if speak_ok w1 then t1 + pacing_delay w1 \<le> t2 else t1 \<le> t2)
      \<and> paced speak_ok ((t2, w2) # cs))"

definition free_at :: "(string \<Rightarrow> bool) \<Rightarrow> (nat \<times> string) list \<Rightarrow> nat" where
  \<comment> \<open>the clock reading from which the consumer is free to make the next call\<close>
  "free_at speak_ok calls =
     (if calls = [] then 0
      else if speak_ok (snd (last calls)) then fst (last calls) + pacing_delay (snd (last calls))
      else fst (last calls))"

section \<open>Session records and the change-feed pollers\<close>

text \<open>
  A session record is the JSON object of the store, with the fields the clients read and
  write; a field that the object does not have is \<open>None\<close>, so \<^verbatim>\<open>d.get(k, default)\<close>
  is a case distinction on the field. An entry of the chat log that is null (or anything
  else that is not a non-empty object) is \<open>None\<close>. The result of an HTTP request is
  either an exception or a status code with the parsed body, \<open>None\<close> for JSON null.
\<close>

record chat_message =
  sender :: "string option"
  message :: "string option"
  sender_name :: "string option"  \<comment> \<open>the key \<^verbatim>\<open>student_name\<close> of a chat message\<close>
  timestamp :: "int option"

record session_data =
  session_code :: "string option"
  session_name :: "string option"
  status :: "string option"
  current_transcript :: "string option"
  student_transcript :: "string option"
  student_name :: "string option"
  deaf_student_name :: "string option"
  chat_messages :: "chat_message option list option"
  created_at :: "int option"
  last_updated :: "int option"

definition empty_session :: session_data where
  \<comment> \<open>the object \<^verbatim>\<open>{}\<close>\<close>
  "empty_session =
     \<lparr>session_code = None, session_name = None, status = None, current_transcript = None,
      student_transcript = None, student_name = None, deaf_student_name = None,
      chat_messages = None, created_at = None, last_updated = None\<rparr>"

type_synonym sessions = "(string \<times> session_data option) list"

datatype failure = Timeout | ConnectionError | OtherError

datatype 'a response = RequestFailed failure | Response nat "'a option"

datatype event =
    ConnectionStatus bool
  | StudentInfoUpdated string
  | NewTranscript string
  | NewChatMessage chat_message
  | SessionVerified bool

text \<open>
  One record holds the fields of the three listener classes:
  \<^verbatim>\<open>StudentTranscriptListener\<close> of teacher\_page.py uses \<open>last_transcript\<close>,
  \<open>last_chat_count\<close>, \<open>last_chat_message\<close> and \<open>shown_student_name\<close> (its
  \<^verbatim>\<open>self.student_name\<close>); the two \<^verbatim>\<open>FirebaseListener\<close> classes use
  \<open>last_transcript\<close>, \<open>last_chat_count\<close> and \<open>session_id\<close>. The session code or id a
  listener is built with never changes and is an argument of its poll function.
\<close>

record listener =
  last_transcript :: string
  last_chat_count :: nat
  last_chat_message :: string
  shown_student_name :: string
  session_id :: "string option"

definition listener_init :: listener where
  "listener_init =
     \<lparr>last_transcript = [], last_chat_count = 0, last_chat_message = [],
      shown_student_name = ''Student'', session_id = None\<rparr>"

fun find_session :: "string \<Rightarrow> sessions \<Rightarrow> (string \<times> session_data) option" where
  \<comment> \<open>the first entry of \<^verbatim>\<open>sessions.items()\<close> that is not empty and has the session code\<close>
  "find_session code [] = None"
| "find_session code ((sid, None) # rest) = find_session code rest"
| "find_session code ((sid, Some d) # rest) =
     (if d \<noteq> empty_session \<and> session_code d = Some code then Some (sid, d)
      else find_session code rest)"

fun teacher_new_messages ::
  "string \<Rightarrow> chat_message option list \<Rightarrow> event list \<times> string \<times> bool" where
  \<comment> \<open>the loop over \<^verbatim>\<open>new_messages\<close> of the teacher's listener, from the value of
      \<^verbatim>\<open>last_chat_message\<close>; returns the events, the new \<^verbatim>\<open>last_chat_message\<close>, and
      whether \<^verbatim>\<open>message.get\<close> raised on a null entry\<close>
  "teacher_new_messages last_msg [] = ([], last_msg, False)"
| "teacher_new_messages last_msg (None # ms) = ([], last_msg, True)"
| "teacher_new_messages last_msg (Some m # ms) =
     (if sender m = Some ''student'' then
        let current_message = (case message m of None \<Rightarrow> [] | Some t \<Rightarrow> t) in
        if current_message \<noteq> last_msg then
          let (evs, last_msg', raised) = teacher_new_messages current_message ms
          in (NewChatMessage m # evs, last_msg', raised)
        else teacher_new_messages last_msg ms
      else teacher_new_messages last_msg ms)"

definition teacher_poll :: "listener \<Rightarrow> session_data response \<Rightarrow> event list \<times> listener" where
  \<comment> \<open>one iteration of \<^verbatim>\<open>StudentTranscriptListener.run\<close>\<close>
  "teacher_poll st resp =
     (case resp of
        RequestFailed e \<Rightarrow> ([ConnectionStatus False], st)
      | Response code body \<Rightarrow>
          if code = 200 then
            let session_data = (case body of None \<Rightarrow> empty_session | Some d \<Rightarrow> d);
                current_student_name =
                  (case student_name session_data of None \<Rightarrow> ''Student'' | Some n \<Rightarrow> n);
                (ev1, st1) =
                  (if current_student_name \<noteq> shown_student_name st
                   then ([StudentInfoUpdated current_student_name],
                         st\<lparr>shown_student_name := current_student_name\<rparr>)
                   else ([], st));
                transcript =
                  (case student_transcript session_data of None \<Rightarrow> [] | Some t \<Rightarrow> t);
                (ev2, st2) =
                  (if transcript \<noteq> [] \<and> transcript \<noteq> last_transcript st1
                   then ([NewTranscript transcript], st1\<lparr>last_transcript := transcript\<rparr>)
                   else ([], st1));
                chat = (case chat_messages session_data of None \<Rightarrow> [] | Some ms \<Rightarrow> ms);
                current_chat_count = length chat
            in if current_chat_count > last_chat_count st2 then
                 let new_messages = drop (last_chat_count st2) chat;
                     (ev3, last_msg, raised) =
                       teacher_new_messages (last_chat_message st2) new_messages;
                     st3 = st2\<lparr>last_chat_message := last_msg\<rparr>
                 in if raised
                    then (ConnectionStatus True # ev1 @ ev2 @ ev3 @ [ConnectionStatus False], st3)
                    else (ConnectionStatus True # ev1 @ ev2 @ ev3,
                          st3\<lparr>last_chat_count := current_chat_count\<rparr>)
               else (ConnectionStatus True # ev1 @ ev2, st2)
          else ([ConnectionStatus False], st))"






definition signing :: "string \<Rightarrow> session_data" where
  \<comment> \<open>the session with code 123456 whose student transcript is \<open>t\<close>\<close>
  "signing t = empty_session\<lparr>session_code := Some ''123456'', student_transcript := Some t\<rparr>"







definition classroom :: sessions where
  \<comment> \<open>a store with one session, code 123456, that the signing student Bob has written to\<close>
  "classroom = [(''s1'', Some ((signing ''HELLO '')\<lparr>student_name := Some ''Bob''\<rparr>))]"

section \<open>Joining a session (StudentPage.\_check\_session\_async in deaf\_student\_page.py)\<close>

text \<open>
  The body of a PATCH request is a record in which the fields that the request does not
  name are \<open>None\<close>. The store replaces the named fields of the record at the path and
  leaves its other fields as they are; a path with no record gets one.
\<close>

definition patch_fields :: "session_data \<Rightarrow> session_data \<Rightarrow> session_data" where
  "patch_fields upd d =
     \<lparr>session_code = (case session_code upd of None \<Rightarrow> session_code d | Some v \<Rightarrow> Some v),
      session_name = (case session_name upd of None \<Rightarrow> session_name d | Some v \<Rightarrow> Some v),
      status = (case status upd of None \<Rightarrow> status d | Some v \<Rightarrow> Some v),
      current_transcript =
        (case current_transcript upd of None \<Rightarrow> current_transcript d | Some v \<Rightarrow> Some v),
      student_transcript =
        (case student_transcript upd of None \<Rightarrow> student_transcript d | Some v \<Rightarrow> Some v),
      student_name = (case student_name upd of None \<Rightarrow> student_name d | Some v \<Rightarrow> Some v),
      deaf_student_name =
        (case deaf_student_name upd of None \<Rightarrow> deaf_student_name d | Some v \<Rightarrow> Some v),
      chat_messages = (case chat_messages upd of None \<Rightarrow> chat_messages d | Some v \<Rightarrow> Some v),
      created_at = (case created_at upd of None \<Rightarrow> created_at d | Some v \<Rightarrow> Some v),
      last_updated = (case last_updated upd of None \<Rightarrow> last_updated d | Some v \<Rightarrow> Some v)\<rparr>"

fun store_patch :: "sessions \<Rightarrow> string \<Rightarrow> session_data \<Rightarrow> sessions" where
  "store_patch [] sid upd = [(sid, Some (patch_fields upd empty_session))]"
| "store_patch ((sid', d) # rest) sid upd =
     (if sid' = sid
      then (sid', Some (patch_fields upd (case d of None \<Rightarrow> empty_session | Some r \<Rightarrow> r))) # rest
      else (sid', d) # store_patch rest sid upd)"

datatype join_result = Joined | ShowError string

definition join_update :: "string \<Rightarrow> int \<Rightarrow> session_data" where
  \<comment> \<open>\<^verbatim>\<open>update_data = {"deaf_student_name": name, "last_updated": int(time.time())}\<close>\<close>
  "join_update name now = empty_session\<lparr>deaf_student_name := Some name, last_updated := Some now\<rparr>"

definition check_session_async ::
  "sessions \<Rightarrow> string \<Rightarrow> string \<Rightarrow> int \<Rightarrow> unit response \<Rightarrow> sessions response \<Rightarrow> unit response
     \<Rightarrow> join_result \<times> sessions" where
  \<comment> \<open>the store when the PATCH arrives, the name and code entered, the clock in seconds,
      and the results of the three requests (the root, the sessions, the PATCH); returns
      what the page shows and the store afterwards. The store applies a PATCH that it
      answers with 200.\<close>
  "check_session_async store name code now test_response response patch_response =
     (case test_response of
        RequestFailed e \<Rightarrow> (ShowError ''Connection error'', store)
      | Response test_code test_body \<Rightarrow>
          if test_code \<noteq> 200 then (ShowError ''Connection failed'', store)
          else
            (case response of
               RequestFailed e \<Rightarrow> (ShowError ''Connection error'', store)
             | Response status_code body \<Rightarrow>
                 if status_code = 200 then
                   let data = (case body of None \<Rightarrow> [] | Some s \<Rightarrow> s) in
                   (case find_session code data of
                      None \<Rightarrow> (ShowError ''Session not found'', store)
                    | Some (sid, session_data) \<Rightarrow>
                        (case patch_response of
                           RequestFailed e \<Rightarrow> (ShowError ''Connection error'', store)
                         | Response patch_code patch_body \<Rightarrow>
                             if patch_code = 200
                             then (Joined, store_patch store sid (join_update name now))
                             else (ShowError ''Failed to join session'', store)))
                 else (ShowError ''Failed to connect to classroom sessions'', store)))"

section \<open>The gesture recognizer's commit timing\<close>

lemma handle_key_keeps:
  "handle_key st out k = (out', st') \<Longrightarrow>
     last_finger_count st' = last_finger_count st \<and> repeat_count st' = repeat_count st \<and>
     last_upload_time st' = last_upload_time st \<and>
     recognized out' = recognized out \<and> shown_count out' = shown_count out"
  by (auto simp: handle_key_def split: if_splits)

lemma handle_key_out:
  "fst (handle_key st out k) = out\<lparr>uploaded := uploaded out @ (if k = KeyC then [[]] else [])\<rparr>"
  by (simp add: handle_key_def)

lemma handle_key_sentence:
  "sentence (snd (handle_key st out k)) = (if k = KeyC then [] else sentence st)"
  by (simp add: handle_key_def)

lemma handle_key_NoKey: "handle_key st out NoKey = (out, st)"
  by (simp add: handle_key_def)

lemma process_frame_repeat:
  assumes "process_frame set_iter st f = (out, st')"
    and "shown_count out = Some c" and "0 < c" and "last_finger_count st = c"
  shows "last_finger_count st' = c
     \<and> repeat_count st' = (if repeat_count st + 1 = 10 then 0 else repeat_count st + 1)
     \<and> recognized out = (if repeat_count st + 1 = 10 then Some (sign_text_of c) else None)
     \<and> sentence st' = sentence st @ (if repeat_count st + 1 = 10 then sign_text_of c @ '' '' else [])
     \<and> uploaded out = (if repeat_count st + 1 = 10 \<and> upload_cooldown \<le> clock f - last_upload_time st
                        then [sentence st'] else [])
     \<and> last_upload_time st' =
           (if repeat_count st + 1 = 10 \<and> upload_cooldown \<le> clock f - last_upload_time st
            then clock f else last_upload_time st)"
proof -
  define q where "q = deque_append 5 (finger_count_queue st) (min (sum_list (hands f)) 10)"
  define s where "s = smoothed_count_of set_iter q (min (sum_list (hands f)) 10)"
  have ne: "hands f \<noteq> []" using assms(1,2) by (auto simp: process_frame_def)
  show ?thesis
  proof (cases "s = c")
    case True
    then show ?thesis using assms ne unfolding process_frame_def Let_def q_def s_def REPEAT_THRESHOLD_def
      by (simp split: if_splits) auto
  next
    case False
    then show ?thesis  using assms ne unfolding process_frame_def Let_def q_def s_def REPEAT_THRESHOLD_def
      by (simp split: if_splits) auto
  qed
qed

lemma process_frame_change:
  assumes "process_frame set_iter st f = (out, st')"
    and "shown_count out = Some c" and "last_finger_count st \<noteq> c"
  shows "last_finger_count st' = c \<and> repeat_count st' = 0 \<and> recognized out = None
     \<and> sentence st' = sentence st \<and> uploaded out = []
     \<and> last_upload_time st' = last_upload_time st"
proof -
  have ne: "hands f \<noteq> []" using assms(1,2) by (auto simp: process_frame_def)
  show ?thesis
    using assms ne unfolding process_frame_def Let_def REPEAT_THRESHOLD_def
    by (simp split: if_splits) auto
qed

lemma recognize_Cons:
  assumes "process_frame set_iter st f = (out, st1)"
    and "handle_key st1 out (pressed f) = (out', st2)"
  shows "recognize set_iter st (f # fs) =
           (if pressed f = KeyQ then [out] else out' # recognize set_iter st2 fs)"
    and "state_after set_iter st (f # fs) = state_after set_iter st2 fs"
  using assms by simp_all

lemma state_after_snoc:
  "state_after set_iter st (fs @ [f]) =
     snd (handle_key (snd (process_frame set_iter (state_after set_iter st fs) f))
            (fst (process_frame set_iter (state_after set_iter st fs) f)) (pressed f))"
proof (induction fs arbitrary: st)
  case Nil
  then show ?case by (simp add: Let_def split: prod.splits)
next
  case (Cons g fs)
  obtain out st1 where pf: "process_frame set_iter st g = (out, st1)"
    by (cases "process_frame set_iter st g")
  obtain out' st2 where hk: "handle_key st1 out (pressed g) = (out', st2)"
    by (cases "handle_key st1 out (pressed g)")
  have "state_after set_iter st ((g # fs) @ [f]) = state_after set_iter st2 (fs @ [f])"
    using recognize_Cons(2) [OF pf hk, of "fs @ [f]"] by simp
  moreover have "state_after set_iter st (g # fs) = state_after set_iter st2 fs"
    by (rule recognize_Cons(2) [OF pf hk])
  ultimately show ?case using Cons.IH [of st2] by (simp only:)
qed

lemma recognize_nth:
  "i < length (recognize set_iter st fs) \<Longrightarrow>
   i < length fs \<and>
   recognize set_iter st fs ! i =
     (if pressed (fs ! i) = KeyQ
      then fst (process_frame set_iter (state_after set_iter st (take i fs)) (fs ! i))
      else fst (handle_key
                 (snd (process_frame set_iter (state_after set_iter st (take i fs)) (fs ! i)))
                 (fst (process_frame set_iter (state_after set_iter st (take i fs)) (fs ! i)))
                 (pressed (fs ! i))))"
proof (induction fs arbitrary: st i)
  case Nil
  then show ?case by simp
next
  case (Cons f fs)
  obtain out st1 where pf: "process_frame set_iter st f = (out, st1)"
    by (cases "process_frame set_iter st f")
  obtain out' st2 where hk: "handle_key st1 out (pressed f) = (out', st2)"
    by (cases "handle_key st1 out (pressed f)")
  note unf = recognize_Cons(1) [OF pf hk, of fs]
  show ?case
  proof (cases i)
    case 0
    show ?thesis
    proof (cases "pressed f = KeyQ")
      case True
      then have "recognize set_iter st (f # fs) = [out]" using unf by simp
      then show ?thesis using 0 True pf by simp
    next
      case False
      then have "recognize set_iter st (f # fs) = out' # recognize set_iter st2 fs"
        using unf by simp
      then show ?thesis using 0 False pf hk by simp
    qed
  next
    case (Suc j)
    have nq: "pressed f \<noteq> KeyQ"
    proof
      assume "pressed f = KeyQ"
      then have "recognize set_iter st (f # fs) = [out]" using unf by simp
      then show False using Cons.prems Suc by simp
    qed
    then have run: "recognize set_iter st (f # fs) = out' # recognize set_iter st2 fs"
      using unf by simp
    have j: "j < length (recognize set_iter st2 fs)"
      using Cons.prems by (simp only: run Suc) simp
    note ih = Cons.IH [OF j]
    have t: "state_after set_iter st (take i (f # fs)) = state_after set_iter st2 (take j fs)"
      using recognize_Cons(2) [OF pf hk, of "take j fs"] by (simp only: Suc take_Suc_Cons)
    have n: "(f # fs) ! i = fs ! j" "recognize set_iter st (f # fs) ! i = recognize set_iter st2 fs ! j"
      by (simp_all only: run Suc nth_Cons_Suc)
    have l: "i < length (f # fs)" using ih Suc by simp
    show ?thesis using ih l by (simp only: t n)
  qed
qed

lemma debounce_next:
  "(if m mod 10 + 1 = 10 then 0 else m mod 10 + 1) = Suc m mod (10::nat)"
  by (simp add: mod_Suc)

lemma debounce_commit:
  "(m mod 10 + 1 = 10) = (Suc m mod (10::nat) = 0)"
  by (simp add: mod_Suc)

lemma tokens_step:
  "Suc m div 10 = m div 10 + (if Suc m mod 10 = 0 then 1 else (0::nat))"
  by (simp add: div_Suc)

lemma frame_shown:
  assumes "\<forall>x \<in> set (recognize set_iter st fs). shown_count x = Some c"
    and "i < length (recognize set_iter st fs)"
  shows "shown_count (fst (process_frame set_iter (state_after set_iter st (take i fs)) (fs ! i)))
           = Some c"
proof -
  have "shown_count (recognize set_iter st fs ! i) = Some c"
    using assms by simp
  then show ?thesis
    using recognize_nth [OF assms(2)]
    by (simp add: handle_key_out split: if_splits)
qed

lemma state_after_next:
  assumes "k < length (recognize set_iter st fs)"
    and "process_frame set_iter (state_after set_iter st (take k fs)) (fs ! k) = (out, st1)"
  shows "last_finger_count (state_after set_iter st (take (Suc k) fs)) = last_finger_count st1"
    and "repeat_count (state_after set_iter st (take (Suc k) fs)) = repeat_count st1"
    and "last_upload_time (state_after set_iter st (take (Suc k) fs)) = last_upload_time st1"
    and "pressed (fs ! k) = NoKey \<Longrightarrow> state_after set_iter st (take (Suc k) fs) = st1"
proof -
  obtain out' st2 where hk: "handle_key st1 out (pressed (fs ! k)) = (out', st2)"
    by (cases "handle_key st1 out (pressed (fs ! k))")
  have kf: "k < length fs" using recognize_nth [OF assms(1)] by blast
  have e: "state_after set_iter st (take (Suc k) fs) = st2"
    by (simp only: take_Suc_conv_app_nth [OF kf] state_after_snoc assms(2) hk fst_conv snd_conv)
  show "last_finger_count (state_after set_iter st (take (Suc k) fs)) = last_finger_count st1"
    and "repeat_count (state_after set_iter st (take (Suc k) fs)) = repeat_count st1"
    and "last_upload_time (state_after set_iter st (take (Suc k) fs)) = last_upload_time st1"
    using handle_key_keeps [OF hk] by (simp_all only: e)
  show "state_after set_iter st (take (Suc k) fs) = st1" if "pressed (fs ! k) = NoKey"
    using hk that by (simp only: e handle_key_NoKey) simp
qed

lemma stable_state:
  assumes "0 < c"
    and "\<forall>x \<in> set (recognize set_iter recognizer_init fs). shown_count x = Some c"
  shows "m < length (recognize set_iter recognizer_init fs) \<Longrightarrow>
         last_finger_count (state_after set_iter recognizer_init (take (Suc m) fs)) = c
         \<and> repeat_count (state_after set_iter recognizer_init (take (Suc m) fs)) = m mod 10"
proof (induction m)
  case 0
  let ?s = "state_after set_iter recognizer_init (take 0 fs)"
  obtain out st1 where pf: "process_frame set_iter ?s (fs ! 0) = (out, st1)"
    by (cases "process_frame set_iter ?s (fs ! 0)")
  have sh: "shown_count out = Some c"
    using frame_shown [OF assms(2) 0] by (simp only: pf fst_conv)
  have "?s = recognizer_init" by simp
  then have "last_finger_count ?s \<noteq> c"
    using assms(1) by (simp add: recognizer_init_def)
  from process_frame_change [OF pf sh this]
  have "last_finger_count st1 = c" "repeat_count st1 = 0" by simp_all
  then show ?case
    by (simp only: state_after_next(1,2) [OF 0 pf]) simp
next
  case (Suc m)
  let ?s = "state_after set_iter recognizer_init (take (Suc m) fs)"
  obtain out st1 where pf: "process_frame set_iter ?s (fs ! Suc m) = (out, st1)"
    by (cases "process_frame set_iter ?s (fs ! Suc m)")
  have m: "m < length (recognize set_iter recognizer_init fs)" using Suc.prems by simp
  have inv: "last_finger_count ?s = c" "repeat_count ?s = m mod 10"
    using Suc.IH [OF m] by simp_all
  have sh: "shown_count out = Some c"
    using frame_shown [OF assms(2) Suc.prems] by (simp only: pf fst_conv)
  from process_frame_repeat [OF pf sh assms(1) inv(1)]
  have "last_finger_count st1 = c"
    "repeat_count st1 = (if m mod 10 + 1 = 10 then 0 else m mod 10 + 1)"
    by (simp_all only: inv(2))
  then have "last_finger_count st1 = c" "repeat_count st1 = Suc m mod 10"
    by (simp_all only: debounce_next)
  then show ?case
    by (simp only: state_after_next(1,2) [OF Suc.prems pf])
qed

lemma length_recognize:
  "\<forall>f \<in> set fs. pressed f = NoKey \<Longrightarrow> length (recognize set_iter st fs) = length fs"
proof (induction fs arbitrary: st)
  case Nil
  then show ?case by simp
next
  case (Cons f fs)
  obtain out st1 where pf: "process_frame set_iter st f = (out, st1)"
    by (cases "process_frame set_iter st f")
  have k: "pressed f = NoKey" using Cons.prems by simp
  have "recognize set_iter st (f # fs) = out # recognize set_iter st1 fs"
    using recognize_Cons(1) [OF pf handle_key_NoKey [of st1 out, folded k], of fs] k by simp
  then show ?case using Cons.IH [of st1] Cons.prems by simp
qed

lemma sentence_after:
  assumes "0 < c"
    and "\<forall>x \<in> set (recognize set_iter recognizer_init fs). shown_count x = Some c"
    and "\<forall>k<N. pressed (fs ! k) = NoKey"
  shows "n \<le> N \<Longrightarrow> n \<le> length (recognize set_iter recognizer_init fs) \<Longrightarrow>
         sentence (state_after set_iter recognizer_init (take n fs))
           = concat (replicate ((n - 1) div 10) (sign_text_of c @ '' ''))"
proof (induction n)
  case 0
  then show ?case by (simp add: recognizer_init_def)
next
  case (Suc n)
  let ?s = "state_after set_iter recognizer_init (take n fs)"
  obtain out st1 where pf: "process_frame set_iter ?s (fs ! n) = (out, st1)"
    by (cases "process_frame set_iter ?s (fs ! n)")
  have n: "n < length (recognize set_iter recognizer_init fs)" using Suc.prems by simp
  have "pressed (fs ! n) = NoKey" using assms(3) Suc.prems(1) by simp
  then have nxt: "state_after set_iter recognizer_init (take (Suc n) fs) = st1"
    by (rule state_after_next(4) [OF n pf])
  have ih: "sentence ?s = concat (replicate ((n - 1) div 10) (sign_text_of c @ '' ''))"
    using Suc.IH Suc.prems(1) n by simp
  have sh: "shown_count out = Some c"
    using frame_shown [OF assms(2) n] by (simp only: pf fst_conv)
  show ?case
  proof (cases n)
    case 0
    then have "?s = recognizer_init" by simp
    then have "last_finger_count ?s \<noteq> c"
      using assms(1) by (simp add: recognizer_init_def)
    from process_frame_change [OF pf sh this]
    have "sentence st1 = sentence ?s" by simp
    then have e: "sentence (state_after set_iter recognizer_init (take (Suc n) fs)) = sentence ?s"
      by (simp only: nxt)
    have d: "(Suc n - 1) div 10 = (n - 1) div 10" using 0 by simp
    show ?thesis by (simp only: e ih d)
  next
    case (Suc m)
    have m: "m < length (recognize set_iter recognizer_init fs)" using n Suc by simp
    have inv: "last_finger_count ?s = c" "repeat_count ?s = m mod 10"
      using stable_state [OF assms(1,2) m] by (simp_all only: Suc)
    from process_frame_repeat [OF pf sh assms(1) inv(1)]
    have "sentence st1 = sentence ?s @ (if m mod 10 + 1 = 10 then sign_text_of c @ '' '' else [])"
      by (simp only: inv(2))
    then have a: "sentence st1 = concat (replicate (m div 10) (sign_text_of c @ '' ''))
                   @ (if Suc m mod 10 = 0 then sign_text_of c @ '' '' else [])"
      using ih by (simp only: debounce_commit Suc diff_Suc_1)
    have c1: "concat (replicate (Suc m div 10) (sign_text_of c @ '' ''))
            = concat (replicate (m div 10) (sign_text_of c @ '' ''))
                @ (if Suc m mod 10 = 0 then sign_text_of c @ '' '' else [])"
      unfolding tokens_step [of m] by (simp add: replicate_add)
    have e: "sentence (state_after set_iter recognizer_init (take (Suc n) fs)) = sentence st1"
      by (simp only: nxt)
    have g: "(Suc n - 1) div 10 = Suc m div 10" using Suc by simp
    have "sentence st1 = concat (replicate (Suc m div 10) (sign_text_of c @ '' ''))"
      by (simp only: a c1)
    then show ?thesis by (simp only: e g)
  qed
qed


text \<open>
  Claim C1, as the code has it. Over any run of the recognizer from its initial state in
  which every frame shows the same smoothed count \<open>c > 0\<close>, a frame commits a token
  exactly when its index (counted from 0) is a positive multiple of 10: the first 10
  frames commit nothing, the 11th frame commits the token of \<open>c\<close>, and so do the 21st,
  the 31st and so on, with nothing committed in between. The first frame only records
  \<open>c\<close> as the last count; \<open>repeat_count\<close> counts the repetitions after it and starts
  again from 0 after every commit. A commit prints the token, appends the token and a
  space to \<open>sentence\<close>, and, when the upload cooldown has elapsed since the last upload,
  uploads the extended sentence and records the time; a frame that does not commit leaves
  \<open>sentence\<close> and the upload time as they were and uploads nothing (the 'c' key, handled
  after the frame, empties the sentence and uploads the empty sentence). While no key is
  pressed, the sentence before frame \<open>i\<close> therefore holds \<open>(i - 1) div 10\<close> tokens.
\<close>

theorem gesture_commit_timing:
  assumes "0 < c"
    and "\<forall>x \<in> set (recognize set_iter recognizer_init fs). shown_count x = Some c"
    and "i < length (recognize set_iter recognizer_init fs)"
  shows "recognized (recognize set_iter recognizer_init fs ! i) =
           (if 0 < i \<and> i mod 10 = 0 then Some (sign_text_of c) else None)
     \<and> sentence (state_after set_iter recognizer_init (take (Suc i) fs)) =
           (if pressed (fs ! i) = KeyC then []
            else sentence (state_after set_iter recognizer_init (take i fs))
                   @ (if 0 < i \<and> i mod 10 = 0 then sign_text_of c @ '' '' else []))
     \<and> uploaded (recognize set_iter recognizer_init fs ! i) =
           (if 0 < i \<and> i mod 10 = 0
               \<and> upload_cooldown
                    \<le> clock (fs ! i)
                        - last_upload_time (state_after set_iter recognizer_init (take i fs))
            then [sentence (state_after set_iter recognizer_init (take i fs))
                    @ sign_text_of c @ '' '']
            else [])
           @ (if pressed (fs ! i) = KeyC then [[]] else [])
     \<and> last_upload_time (state_after set_iter recognizer_init (take (Suc i) fs)) =
           (if 0 < i \<and> i mod 10 = 0
               \<and> upload_cooldown
                    \<le> clock (fs ! i)
                        - last_upload_time (state_after set_iter recognizer_init (take i fs))
            then clock (fs ! i)
            else last_upload_time (state_after set_iter recognizer_init (take i fs)))
     \<and> ((\<forall>k<i. pressed (fs ! k) = NoKey) \<longrightarrow>
          sentence (state_after set_iter recognizer_init (take i fs))
            = concat (replicate ((i - 1) div 10) (sign_text_of c @ '' '')))"
proof -
  let ?run = "recognize set_iter recognizer_init fs"
  let ?s = "state_after set_iter recognizer_init (take i fs)"
  let ?s' = "state_after set_iter recognizer_init (take (Suc i) fs)"
  let ?tok = "sign_text_of c @ '' ''"
  obtain out st1 where pf: "process_frame set_iter ?s (fs ! i) = (out, st1)"
    by (cases "process_frame set_iter ?s (fs ! i)")
  obtain out' st2 where hk: "handle_key st1 out (pressed (fs ! i)) = (out', st2)"
    by (cases "handle_key st1 out (pressed (fs ! i))")
  have nth: "i < length fs"
    using recognize_nth [OF assms(3)] by blast
  have "?run ! i = (if pressed (fs ! i) = KeyQ then out else out')"
    using recognize_nth [OF assms(3), THEN conjunct2] by (simp only: pf hk fst_conv snd_conv)
  moreover have "out' = out\<lparr>uploaded := uploaded out @ (if pressed (fs ! i) = KeyC then [[]] else [])\<rparr>"
    using handle_key_out [of st1 out "pressed (fs ! i)"] by (simp only: hk fst_conv)
  ultimately have run_i: "recognized (?run ! i) = recognized out"
    "uploaded (?run ! i) = uploaded out @ (if pressed (fs ! i) = KeyC then [[]] else [])"
    by (cases "pressed (fs ! i)"; simp)+
  have e: "?s' = st2"
    by (simp only: take_Suc_conv_app_nth [OF nth] state_after_snoc pf hk fst_conv snd_conv)
  have after: "sentence ?s' = (if pressed (fs ! i) = KeyC then [] else sentence st1)"
    "last_upload_time ?s' = last_upload_time st1"
    using handle_key_sentence [of st1 out "pressed (fs ! i)"] handle_key_keeps [OF hk]
    by (simp_all only: e hk snd_conv)
  have sh: "shown_count out = Some c"
    using frame_shown [OF assms(2,3)] by (simp only: pf fst_conv)
  have step: "recognized out = (if 0 < i \<and> i mod 10 = 0 then Some (sign_text_of c) else None)
      \<and> sentence st1 = sentence ?s @ (if 0 < i \<and> i mod 10 = 0 then ?tok else [])
      \<and> uploaded out =
          (if 0 < i \<and> i mod 10 = 0 \<and> upload_cooldown \<le> clock (fs ! i) - last_upload_time ?s
           then [sentence ?s @ ?tok] else [])
      \<and> last_upload_time st1 =
          (if 0 < i \<and> i mod 10 = 0 \<and> upload_cooldown \<le> clock (fs ! i) - last_upload_time ?s
           then clock (fs ! i) else last_upload_time ?s)"
  proof (cases i)
    case 0
    then have "?s = recognizer_init" by simp
    then have "last_finger_count ?s \<noteq> c"
      using assms(1) by (simp add: recognizer_init_def)
    from process_frame_change [OF pf sh this]
    have "recognized out = None" "sentence st1 = sentence ?s" "uploaded out = []"
      "last_upload_time st1 = last_upload_time ?s"
      by simp_all
    then show ?thesis using 0 by simp
  next
    case (Suc m)
    have m: "m < length ?run" using assms(3) Suc by simp
    have inv: "last_finger_count ?s = c" "repeat_count ?s = m mod 10"
      using stable_state [OF assms(1,2) m] by (simp_all only: Suc)
    have cm: "(m mod 10 + 1 = 10) = (0 < i \<and> i mod 10 = 0)"
      by (simp only: debounce_commit Suc) simp
    note pr = process_frame_repeat [OF pf sh assms(1) inv(1), unfolded inv(2) cm]
    note r1 = pr [THEN conjunct2, THEN conjunct2, THEN conjunct1]
    note r2 = pr [THEN conjunct2, THEN conjunct2, THEN conjunct2, THEN conjunct1]
    note r3 = pr [THEN conjunct2, THEN conjunct2, THEN conjunct2, THEN conjunct2, THEN conjunct1]
    note r4 = pr [THEN conjunct2, THEN conjunct2, THEN conjunct2, THEN conjunct2, THEN conjunct2]
    have r3': "uploaded out =
          (if 0 < i \<and> i mod 10 = 0 \<and> upload_cooldown \<le> clock (fs ! i) - last_upload_time ?s
           then [sentence ?s @ ?tok] else [])"
      by (simp only: r3 r2 conj_assoc split: if_split) simp
    show ?thesis
      by (intro conjI) (simp_all only: r1 r2 r3' r4 conj_assoc)
  qed
  have total: "(\<forall>k<i. pressed (fs ! k) = NoKey) \<longrightarrow>
          sentence ?s = concat (replicate ((i - 1) div 10) ?tok)"
  proof
    assume "\<forall>k<i. pressed (fs ! k) = NoKey"
    then show "sentence ?s = concat (replicate ((i - 1) div 10) ?tok)"
      using assms(3) by (intro sentence_after [OF assms(1,2), where N = i]) simp_all
  qed
  show ?thesis
    using step total by (simp only: run_i after)
qed


text \<open>
  Eleven frames of three raised fingers, 5 seconds after the start: the 11th frame
  commits the token of 3, which makes the sentence and is uploaded.
\<close>

lemmas gesture_eval =
  process_frame_def three_fingers_def recognizer_init_def Let_def deque_append_def
  smoothed_count_of_def sign_text_of_def REPEAT_THRESHOLD_def handle_key_def FINGER_SIGNS_def
  upload_cooldown_def

lemma three_fingers_recognized:
  "map recognized (recognize remdups recognizer_init (replicate 11 three_fingers))
     = replicate 10 None @ [Some ''RPEPEAT THAT'']"
  by (simp add: gesture_eval numeral_eq_Suc)

lemma three_fingers_shown:
  "map shown_count (recognize remdups recognizer_init (replicate 11 three_fingers))
     = replicate 11 (Some 3)"
  by (simp add: gesture_eval numeral_eq_Suc)

lemma three_fingers_uploaded:
  "map uploaded (recognize remdups recognizer_init (replicate 11 three_fingers))
     = replicate 10 [] @ [[''RPEPEAT THAT '']]"
  by (simp add: gesture_eval numeral_eq_Suc)

lemma three_fingers_sentence_10:
  "sentence (state_after remdups recognizer_init (replicate 10 three_fingers)) = []"
  by (simp add: gesture_eval numeral_eq_Suc)

lemma three_fingers_sentence_11:
  "sentence (state_after remdups recognizer_init (replicate 11 three_fingers)) = ''RPEPEAT THAT ''"
  by (simp add: gesture_eval numeral_eq_Suc)

lemma three_fingers_upload_time:
  "last_upload_time (state_after remdups recognizer_init (replicate 10 three_fingers)) = 0"
  by (simp add: gesture_eval numeral_eq_Suc)

lemma three_fingers_frame:
  "pressed three_fingers = NoKey" "clock three_fingers = 5000"
  by (simp_all add: three_fingers_def)

lemma sign_text_of_3: "sign_text_of 3 = ''RPEPEAT THAT''"
  by (simp add: sign_text_of_def FINGER_SIGNS_def)

theorem gesture_commit_timing_witness:
  "map shown_count (recognize remdups recognizer_init (replicate 11 three_fingers))
     = replicate 11 (Some 3)
   \<and> recognized (recognize remdups recognizer_init (replicate 11 three_fingers) ! 10)
       = Some ''RPEPEAT THAT''
   \<and> sentence (state_after remdups recognizer_init (replicate 10 three_fingers)) = []
   \<and> sentence (state_after remdups recognizer_init (replicate 11 three_fingers))
       = ''RPEPEAT THAT ''
   \<and> uploaded (recognize remdups recognizer_init (replicate 11 three_fingers) ! 10)
       = [''RPEPEAT THAT '']
   \<and> last_upload_time (state_after remdups recognizer_init (replicate 11 three_fingers)) = 5000"
proof -
  let ?fs = "replicate 11 three_fingers"
  let ?run = "recognize remdups recognizer_init ?fs"
  have "set (map shown_count ?run) = set (replicate 11 (Some 3))"
    by (simp only: three_fingers_shown)
  then have "shown_count ` set ?run = {Some 3}"
    by (simp only: set_map) simp
  then have all: "\<forall>x \<in> set ?run. shown_count x = Some 3"
    by blast
  have "length (map shown_count ?run) = 11"
    by (simp only: three_fingers_shown length_replicate)
  then have len: "10 < length ?run"
    by simp
  have pos: "(0::int) < 3" by simp
  have t10: "take 10 ?fs = replicate 10 three_fingers"
    and t11: "take (Suc 10) ?fs = ?fs"
    and n10: "?fs ! 10 = three_fingers"
    by simp_all
  have keys: "\<forall>k<10. pressed (?fs ! k) = NoKey"
    by (simp add: three_fingers_frame)
  note th = gesture_commit_timing [OF pos all len, unfolded t10 t11 n10 three_fingers_frame
      three_fingers_upload_time sign_text_of_3]
  have s10: "sentence (state_after remdups recognizer_init (replicate 10 three_fingers)) = []"
    using th keys by simp
  show ?thesis
    using th three_fingers_shown by (simp add: s10 upload_cooldown_def)
qed

theorem gesture_tenth_frame_counterexample:
  "map recognized (recognize remdups recognizer_init (replicate 11 three_fingers))
     = replicate 10 None @ [Some ''RPEPEAT THAT'']
   \<and> map uploaded (recognize remdups recognizer_init (replicate 11 three_fingers))
     = replicate 10 [] @ [[''RPEPEAT THAT '']]
   \<and> sentence (state_after remdups recognizer_init (replicate 10 three_fingers)) = []
   \<and> sentence (state_after remdups recognizer_init (replicate 11 three_fingers))
     = ''RPEPEAT THAT ''"
  using three_fingers_recognized three_fingers_uploaded three_fingers_sentence_10
    three_fingers_sentence_11 by blast

section \<open>The bound of the visualization cache\<close>

lemma dict_set_new: "k \<notin> fst ` set c \<Longrightarrow> dict_set k v c = c @ [(k, v)]"
  by (induction c) auto

lemma length_dict_set: "length (dict_set k v c) \<le> Suc (length c)"
  by (induction c) auto

lemma cache_insertions_snoc:
  "cache_insertions c (kps @ [(k, p)]) =
     snd (generate_visual_async (cache_insertions c kps) k (Pixmap p))"
  by (induction kps arbitrary: c) auto

lemma generate_visual_async_new:
  assumes "k \<notin> fst ` set c"
  shows "snd (generate_visual_async c k (Pixmap p)) =
           (if length c \<ge> 10 then tl (c @ [(k, p)]) else c @ [(k, p)])"
  using assms by (simp add: generate_visual_async_def dict_set_new Let_def)

lemma cache_insertions_distinct:
  "distinct (map fst kps) \<Longrightarrow> cache_insertions [] kps = drop (length kps - 10) kps"
proof (induction kps rule: rev_induct)
  case Nil
  then show ?case by simp
next
  case (snoc kp kps)
  obtain k p where kp: "kp = (k, p)" by (cases kp)
  have d: "distinct (map fst kps)" and nk: "k \<notin> fst ` set kps"
    using snoc.prems kp by auto
  have c: "cache_insertions [] kps = drop (length kps - 10) kps"
    by (rule snoc.IH [OF d])
  have "k \<notin> fst ` set (drop (length kps - 10) kps)"
    using nk by (auto dest: in_set_dropD)
  then have step: "cache_insertions [] (kps @ [kp]) =
      (if length (drop (length kps - 10) kps) \<ge> 10
       then tl (drop (length kps - 10) kps @ [(k, p)])
       else drop (length kps - 10) kps @ [(k, p)])"
    unfolding kp cache_insertions_snoc c by (rule generate_visual_async_new)
  show ?case
  proof (cases "length kps \<ge> 10")
    case True
    then have "length (drop (length kps - 10) kps) = 10" by simp
    moreover have "drop (length kps - 10) kps \<noteq> []" using True calculation by auto
    moreover have "tl (drop (length kps - 10) kps) = drop (Suc (length kps - 10)) kps"
      by (simp only: drop_Suc tl_drop)
    moreover have "Suc (length kps - 10) = length (kps @ [kp]) - 10"
      using True by simp
    ultimately show ?thesis using step True kp by simp
  next
    case False
    then show ?thesis using step kp by simp
  qed
qed

lemma generate_visual_async_bound:
  assumes "length cache \<le> 10"
  shows "length (snd (generate_visual_async cache k outcome)) \<le> 10"
proof (cases outcome)
  case (Pixmap p)
  have "length (dict_set k p cache) \<le> 11"
    using length_dict_set [of k p cache] assms by simp
  then show ?thesis
    by (simp add: Pixmap generate_visual_async_def Let_def, arith)
qed (simp_all add: generate_visual_async_def assms)

text \<open>
  Claim C7. Eleven successful insertions under distinct keys into the empty cache leave
  exactly 10 entries, the last ten in insertion order, and the first key is gone. An
  insertion into a cache of at most 10 entries leaves at most 10; a successful insertion
  of a new key into a full cache removes the oldest entry and nothing else.
\<close>

theorem visual_cache_bound:
  fixes kps :: "(int \<times> 'a) list"
  assumes "distinct (map fst kps)" and "length kps = 11"
  shows "length (cache_insertions [] kps) = 10
     \<and> fst (hd kps) \<notin> fst ` set (cache_insertions [] kps)
     \<and> cache_insertions [] kps = tl kps
     \<and> (\<forall>(cache :: (int \<times> 'a) list) k outcome. length cache \<le> 10 \<longrightarrow>
           length (snd (generate_visual_async cache k outcome)) \<le> 10)
     \<and> (\<forall>(cache :: (int \<times> 'a) list) k p. k \<notin> fst ` set cache \<and> length cache = 10 \<longrightarrow>
           snd (generate_visual_async cache k (Pixmap p)) = tl cache @ [(k, p)])"
proof -
  obtain kp rest where kps: "kps = kp # rest"
    using assms(2) by (cases kps) auto
  have "cache_insertions [] kps = drop (length kps - 10) kps"
    by (rule cache_insertions_distinct [OF assms(1)])
  then have c: "cache_insertions [] kps = tl kps"
    using assms(2) by (simp add: kps)
  have "fst kp \<notin> fst ` set rest"
    using assms(1) by (simp add: kps)
  then have gone: "fst (hd kps) \<notin> fst ` set (cache_insertions [] kps)"
    using c kps by simp
  have len: "length (cache_insertions [] kps) = 10"
    using assms(2) c by simp
  have bound: "\<forall>(cache :: (int \<times> 'a) list) k outcome. length cache \<le> 10 \<longrightarrow>
           length (snd (generate_visual_async cache k outcome)) \<le> 10"
    using generate_visual_async_bound by blast
  have evict: "\<forall>(cache :: (int \<times> 'a) list) k p. k \<notin> fst ` set cache \<and> length cache = 10 \<longrightarrow>
           snd (generate_visual_async cache k (Pixmap p)) = tl cache @ [(k, p)]"
  proof (intro allI impI)
    fix cache :: "(int \<times> 'a) list" and k p
    assume a: "k \<notin> fst ` set cache \<and> length cache = 10"
    then have "cache \<noteq> []" by auto
    then show "snd (generate_visual_async cache k (Pixmap p)) = tl cache @ [(k, p)]"
      using a by (simp add: generate_visual_async_new)
  qed
  show ?thesis using len gone c bound evict by blast
qed

theorem visual_cache_bound_witness:
  "length (cache_insertions []
      [(1, ''a''), (2, ''b''), (3, ''c''), (4, ''d''), (5, ''e''), (6, ''f''), (7, ''g''),
       (8, ''h''), (9, ''i''), (10, ''j''), (11, ''k'')]) = 10
   \<and> 1 \<notin> fst ` set (cache_insertions []
      [(1, ''a''), (2, ''b''), (3, ''c''), (4, ''d''), (5, ''e''), (6, ''f''), (7, ''g''),
       (8, ''h''), (9, ''i''), (10, ''j''), (11, ''k'')])"
proof -
  let ?kps = "[(1::int, ''a''), (2, ''b''), (3, ''c''), (4, ''d''), (5, ''e''), (6, ''f''),
       (7, ''g''), (8, ''h''), (9, ''i''), (10, ''j''), (11, ''k'')]"
  have d: "distinct (map fst ?kps)" by simp
  have l: "length ?kps = 11" by simp
  note w = visual_cache_bound [OF d l]
  have "length (cache_insertions [] ?kps) = 10"
    by (rule w [THEN conjunct1])
  moreover from w [THEN conjunct2, THEN conjunct1]
  have "1 \<notin> fst ` set (cache_insertions [] ?kps)"
    unfolding list.sel fst_conv .
  ultimately show ?thesis by (rule conjI)
qed

section \<open>Buffering of transcript words\<close>

text \<open>
  Claim C2, as the code has it. A call of the transcript-consumption operation made
  while the 10 s cooldown has not elapsed, or while a generation is in flight, returns
  at once: nothing is buffered and the word count stays. Otherwise the words of the text
  are appended to the word buffer and counted; when that triggers a chunk, the chunk is
  the first 20 words of the extended buffer and the buffer keeps the rest.
\<close>

theorem process_for_visualization_buffers:
  assumes "process_for_visualization st text now = (chunk, st')"
  shows "if now - last_visualization_time st < visualization_cooldown \<or> is_generating_visual st
         then chunk = None \<and> st' = st
         else total_words_processed st' = total_words_processed st + int (length (py_split text))
            \<and> (case chunk of
                  None \<Rightarrow> word_buffer st' = word_buffer st @ py_split text
                | Some c \<Rightarrow> c = py_join '' '' (take 20 (word_buffer st @ py_split text))
                           \<and> word_buffer st' = drop 20 (word_buffer st @ py_split text))"
proof (cases "now - last_visualization_time st < visualization_cooldown \<or> is_generating_visual st")
  case True
  then show ?thesis using assms by (auto simp: process_for_visualization_def)
next
  case False
  show ?thesis
  proof (cases "py_split text = []")
    case True
    then show ?thesis using assms False by (simp add: process_for_visualization_def)
  next
    case ne: False
    show ?thesis
      using assms False ne
      by (simp add: process_for_visualization_def Let_def word_count_threshold_def
          split: if_splits) auto
  qed
qed

theorem process_for_visualization_buffers_witness:
  "total_words_processed
     (snd (process_for_visualization (viz_init :: unit viz) ''hello world'' 20000)) = 2
   \<and> word_buffer
     (snd (process_for_visualization (viz_init :: unit viz) ''hello world'' 20000))
       = [''hello'', ''world'']"
proof -
  obtain chunk st' where
    r: "process_for_visualization (viz_init :: unit viz) ''hello world'' 20000 = (chunk, st')"
    by (cases "process_for_visualization (viz_init :: unit viz) ''hello world'' 20000")
  have s: "py_split ''hello world'' = [''hello'', ''world'']"
    by (simp add: py_split_def py_isspace_def)
  have c: "chunk = None"
    using r by (simp add: process_for_visualization_def viz_init_def visualization_cooldown_def
        word_count_threshold_def Let_def s)
  have "total_words_processed st' = 2 \<and> word_buffer st' = [''hello'', ''world'']"
    using process_for_visualization_buffers [OF r]
    by (simp add: viz_init_def visualization_cooldown_def s c)
  then show ?thesis by (simp only: r snd_conv)
qed

theorem process_for_visualization_cooldown_counterexample:
  "py_split ''hello world'' = [''hello'', ''world'']
   \<and> word_buffer (snd (process_for_visualization
        ((viz_init :: unit viz)\<lparr>last_visualization_time := 100000\<rparr>) ''hello world'' 105000)) = []
   \<and> total_words_processed (snd (process_for_visualization
        ((viz_init :: unit viz)\<lparr>last_visualization_time := 100000\<rparr>) ''hello world'' 105000)) = 0"
  by (simp add: process_for_visualization_def viz_init_def visualization_cooldown_def
      py_split_def py_isspace_def)

section \<open>Order and pacing of the speech output queue\<close>

lemma word_queue_speak:
  "word_queue (speak st w) =
     word_queue st @ filter (\<lambda>w. length w > 1) [py_strip w]"
  by (auto simp: speak_def)

lemma word_queue_foldl_speak:
  "word_queue (foldl speak st ws) =
     word_queue st @ filter (\<lambda>w. length w > 1) (map py_strip ws)"
  by (induction ws arbitrary: st) (simp_all add: word_queue_speak)

lemma speak_keeps:
  "is_speaking (speak st w) = is_speaking st \<and> tts_clock (speak st w) = tts_clock st
     \<and> speak_calls (speak st w) = speak_calls st"
  by (simp add: speak_def)

lemma foldl_speak_keeps:
  "is_speaking (foldl speak st ws) = is_speaking st
     \<and> tts_clock (foldl speak st ws) = tts_clock st
     \<and> speak_calls (foldl speak st ws) = speak_calls st"
  by (induction ws arbitrary: st) (simp_all add: speak_keeps)

lemma paced_snoc:
  "paced speak_ok calls \<Longrightarrow> free_at speak_ok calls \<le> t \<Longrightarrow> paced speak_ok (calls @ [(t, w)])"
proof (induction speak_ok calls rule: paced.induct)
  case (1 speak_ok)
  then show ?case by simp
next
  case (2 speak_ok c)
  then show ?case by (cases c) (auto simp: free_at_def split: if_splits)
next
  case (3 speak_ok t1 w1 t2 w2 cs)
  have "free_at speak_ok ((t2, w2) # cs) = free_at speak_ok ((t1, w1) # (t2, w2) # cs)"
    by (simp add: free_at_def)
  then show ?case using 3 by simp
qed

lemma process_queue_step_inv:
  assumes "\<not> is_speaking st" and "paced speak_ok (speak_calls st)"
    and "free_at speak_ok (speak_calls st) \<le> tts_clock st"
  shows "\<not> is_speaking (process_queue_step speak_ok st)
     \<and> paced speak_ok (speak_calls (process_queue_step speak_ok st))
     \<and> free_at speak_ok (speak_calls (process_queue_step speak_ok st))
          \<le> tts_clock (process_queue_step speak_ok st)
     \<and> map snd (speak_calls (process_queue_step speak_ok st))
          = map snd (speak_calls st) @ take 1 (word_queue st)
     \<and> word_queue (process_queue_step speak_ok st) = drop 1 (word_queue st)"
proof (cases "word_queue st")
  case Nil
  then show ?thesis using assms by (simp add: process_queue_step_def)
next
  case (Cons w ws)
  have p: "paced speak_ok (speak_calls st @ [(tts_clock st, w)])"
    by (rule paced_snoc [OF assms(2,3)])
  have f: "free_at speak_ok (speak_calls st @ [(tts_clock st, w)])
             = (if speak_ok w then tts_clock st + pacing_delay w else tts_clock st)"
    by (simp add: free_at_def)
  show ?thesis using assms(1) p f Cons
    by (simp add: process_queue_step_def Let_def)
qed

lemma process_queue_inv:
  "\<not> is_speaking st \<Longrightarrow> paced speak_ok (speak_calls st) \<Longrightarrow>
   free_at speak_ok (speak_calls st) \<le> tts_clock st \<Longrightarrow>
   paced speak_ok (speak_calls (process_queue speak_ok n st))
     \<and> map snd (speak_calls (process_queue speak_ok n st))
          = map snd (speak_calls st) @ take n (word_queue st)"
proof (induction n arbitrary: st)
  case 0
  then show ?case by simp
next
  case (Suc n)
  note s = process_queue_step_inv [OF Suc.prems]
  note ih = Suc.IH [OF s [THEN conjunct1] s [THEN conjunct2, THEN conjunct1]
      s [THEN conjunct2, THEN conjunct2, THEN conjunct1]]
  have "take 1 (word_queue st) @ take n (drop 1 (word_queue st)) = take (Suc n) (word_queue st)"
    by (cases "word_queue st") simp_all
  then show ?case using ih s by simp
qed

text \<open>
  Claim C8, as the code has it. \<open>speak\<close> puts a text on the queue only when it has
  more than one character after trimming, and puts the trimmed text. The consumer makes
  its synthesis calls in the order of the queue, one per iteration, and no call starts
  before the pacing delay (500 ms plus 100 ms per character) of the previous call that
  returned has passed. For the words "a", "bb", "ccc" the calls are therefore "bb" and
  "ccc": "a" is never queued.
\<close>

theorem speech_queue_order:
  "word_queue (foldl speak tts_init ws) = filter (\<lambda>w. length w > 1) (map py_strip ws)
   \<and> map snd (speak_calls (process_queue speak_ok n (foldl speak tts_init ws)))
       = take n (filter (\<lambda>w. length w > 1) (map py_strip ws))
   \<and> paced speak_ok (speak_calls (process_queue speak_ok n (foldl speak tts_init ws)))"
proof -
  let ?st = "foldl speak tts_init ws"
  have q: "word_queue ?st = filter (\<lambda>w. length w > 1) (map py_strip ws)"
    by (simp add: word_queue_foldl_speak tts_init_def)
  have k: "\<not> is_speaking ?st" "speak_calls ?st = []"
    by (simp_all add: foldl_speak_keeps tts_init_def)
  have p: "paced speak_ok (speak_calls ?st)" by (simp add: k)
  have f: "free_at speak_ok (speak_calls ?st) \<le> tts_clock ?st"
    by (simp add: k free_at_def)
  note inv = process_queue_inv [OF k(1) p f, of n]
  show ?thesis using q inv by (simp add: k)
qed

lemma strip_words:
  "py_strip ''a'' = ''a''" "py_strip ''bb'' = ''bb''" "py_strip ''ccc'' = ''ccc''"
  by (simp_all add: py_strip_def py_isspace_def)

theorem speech_queue_order_witness:
  "map snd (speak_calls (process_queue (\<lambda>w. True) 3 (foldl speak tts_init [''bb'', ''ccc''])))
     = [''bb'', ''ccc'']"
  using speech_queue_order [of "[''bb'', ''ccc'']" "\<lambda>w. True" 3]
  by (simp add: strip_words)

theorem speech_queue_single_letter_counterexample:
  "word_queue (foldl speak tts_init [''a'', ''bb'', ''ccc'']) = [''bb'', ''ccc'']
   \<and> speak_calls (process_queue (\<lambda>w. True) 3 (foldl speak tts_init [''a'', ''bb'', ''ccc'']))
       = [(0, ''bb''), (750, ''ccc'')]"
  by (simp add: speak_def strip_words tts_init_def process_queue_step_def Let_def
      pacing_delay_def numeral_eq_Suc)

section \<open>Deduplication in the streaming transcriber\<close>

lemma word_set_Nil: "word_set [] = []"
  by (simp add: word_set_def py_split_def py_lower_def)

lemma intersection_size_card:
  "intersection_size (word_set t1) (word_set t2) = card (set (word_set t1) \<inter> set (word_set t2))"
proof -
  have d: "distinct (filter (\<lambda>w. w \<in> set (word_set t2)) (word_set t1))"
    by (simp add: word_set_def)
  have "set (filter (\<lambda>w. w \<in> set (word_set t2)) (word_set t1))
          = set (word_set t1) \<inter> set (word_set t2)"
    by auto
  then show ?thesis
    unfolding intersection_size_def using distinct_card [OF d] by simp
qed

lemma union_size_card:
  "union_size (word_set t1) (word_set t2) = card (set (word_set t1) \<union> set (word_set t2))"
  unfolding union_size_def by (simp add: length_remdups_card_conv)

lemma is_too_similar_jaccard:
  "is_too_similar t1 t2 =
     (7 * card (set (word_set t1) \<union> set (word_set t2))
        < 10 * card (set (word_set t1) \<inter> set (word_set t2)))"
proof (cases "word_set t1 = [] \<or> word_set t2 = []")
  case True
  then have "card (set (word_set t1) \<inter> set (word_set t2)) = 0" by auto
  moreover have "\<not> is_too_similar t1 t2"
    using True by (auto simp: is_too_similar_def Let_def)
  ultimately show ?thesis by simp
next
  case False
  then have "t1 \<noteq> []" "t2 \<noteq> []" using word_set_Nil by auto
  then show ?thesis using False
    by (auto simp: is_too_similar_def Let_def intersection_size_card union_size_card)
qed

lemma process_buffer_text:
  assumes "model_loaded st"
    and "sample_rate * 8 \<le> 10 * length (concat (audio_buffer st))"
    and "transcribe (concat (audio_buffer st)) = Text raw"
    and "py_strip raw \<noteq> []"
  shows "process_buffer transcribe now st =
     (if is_too_similar (clean_transcription (py_strip raw)) (last_transcription st)
      then (None, st)
      else (Some (clean_transcription (py_strip raw)),
            st\<lparr>last_transcription := clean_transcription (py_strip raw),
               audio_buffer := [drop (length (concat (audio_buffer st)) - sample_rate)
                                  (concat (audio_buffer st))],
               last_processing_time := now\<rparr>))"
proof -
  have "0 < length (concat (audio_buffer st))"
    using assms(2) unfolding sample_rate_def by linarith
  then have ne: "audio_buffer st \<noteq> []" by (cases "audio_buffer st") simp_all
  have ge: "\<not> 10 * length (concat (audio_buffer st)) < sample_rate * 8"
    using assms(2) by simp
  show ?thesis
    unfolding process_buffer_def Let_def
    using assms(1,3,4) ne ge by simp
qed

lemma heard_ready:
  "model_loaded (heard t)"
  "sample_rate * 8 \<le> 10 * length (concat (audio_buffer (heard t)))"
  "last_transcription (heard t) = t"
  by (simp_all add: heard_def sample_rate_def)

lemma clean_examples:
  "py_strip ''hello world'' = ''hello world''"
  "clean_transcription ''hello world'' = ''hello world''"
  "py_strip ''the cat sat on the rug'' = ''the cat sat on the rug''"
  "clean_transcription ''the cat sat on the rug'' = ''the cat sat on the rug''"
  by (simp_all add: clean_transcription_def py_split_def py_strip_def py_isspace_def Let_def)

lemma word_set_examples:
  "word_set ''hello world'' = [''hello'', ''world'']"
  "word_set ''the cat sat on the mat'' = [''cat'', ''sat'', ''on'', ''the'', ''mat'']"
  "word_set ''the cat sat on the rug'' = [''cat'', ''sat'', ''on'', ''the'', ''rug'']"
  by (simp_all add: word_set_def py_split_def py_lower_def py_lower_char_def py_isspace_def)

lemma similar_examples:
  "is_too_similar ''hello world'' ''hello world''"
  "\<not> is_too_similar ''the cat sat on the rug'' ''the cat sat on the mat''"
  by (simp_all add: is_too_similar_def Let_def word_set_examples intersection_size_def
      union_size_def)

text \<open>
  Claim C3, as the code has it. When the engine returns a non-empty text for a buffer
  that is long enough, the cleaned text is suppressed exactly when the Jaccard similarity
  of its lower-cased word set and that of the last accepted text exceeds 7/10, and is
  emitted otherwise; a text with at least one word repeats itself and is suppressed the
  second time. For "the cat sat on the mat" and "the cat sat on the rug" the word sets
  share 4 of 6 words, a similarity of 2/3, so both are emitted.
\<close>

theorem near_repeat_suppressed:
  assumes "model_loaded st"
    and "sample_rate * 8 \<le> 10 * length (concat (audio_buffer st))"
    and "transcribe (concat (audio_buffer st)) = Text raw"
    and "py_strip raw \<noteq> []"
  shows "fst (process_buffer transcribe now st) =
           (if 7 * card (set (word_set (clean_transcription (py_strip raw)))
                         \<union> set (word_set (last_transcription st)))
               < 10 * card (set (word_set (clean_transcription (py_strip raw)))
                         \<inter> set (word_set (last_transcription st)))
            then None else Some (clean_transcription (py_strip raw)))
       \<and> (if last_transcription st = clean_transcription (py_strip raw)
             \<and> word_set (last_transcription st) \<noteq> []
           then fst (process_buffer transcribe now st) = None else True)"
proof -
  let ?t = "clean_transcription (py_strip raw)"
  have p: "fst (process_buffer transcribe now st) =
             (if is_too_similar ?t (last_transcription st) then None else Some ?t)"
    by (simp add: process_buffer_text [where transcribe = transcribe, OF assms])
  have same: "is_too_similar ?t ?t" if "word_set ?t \<noteq> []"
  proof -
    have "0 < card (set (word_set ?t))" using that by (simp add: card_gt_0_iff)
    then show ?thesis by (simp add: is_too_similar_jaccard)
  qed
  show ?thesis
    using p same by (auto simp: is_too_similar_jaccard)
qed

theorem near_repeat_suppressed_witness:
  "fst (process_buffer (\<lambda>audio. Text ''the cat sat on the rug'') 5000
          (heard ''the cat sat on the mat'')) = Some ''the cat sat on the rug''
   \<and> fst (process_buffer (\<lambda>audio. Text ''hello world'') 5000 (heard ''hello world'')) = None"
proof -
  have ne: "py_strip ''the cat sat on the rug'' \<noteq> []" "py_strip ''hello world'' \<noteq> []"
    by (simp_all add: clean_examples)
  have a: "fst (process_buffer (\<lambda>audio. Text ''the cat sat on the rug'') 5000
          (heard ''the cat sat on the mat'')) = Some ''the cat sat on the rug''"
    using near_repeat_suppressed [where transcribe = "\<lambda>audio. Text ''the cat sat on the rug''"
        and st = "heard ''the cat sat on the mat''" and now = 5000,
        OF heard_ready(1,2) refl ne(1), THEN conjunct1, folded is_too_similar_jaccard]
    by (simp add: heard_ready clean_examples similar_examples)
  have b: "fst (process_buffer (\<lambda>audio. Text ''hello world'') 5000 (heard ''hello world'')) = None"
    using near_repeat_suppressed [where transcribe = "\<lambda>audio. Text ''hello world''"
        and st = "heard ''hello world''" and now = 5000,
        OF heard_ready(1,2) refl ne(2), THEN conjunct2]
    by (simp add: heard_ready clean_examples word_set_examples)
  show ?thesis using a b by (rule conjI)
qed

theorem cat_mat_rug_similarity_counterexample:
  "intersection_size (word_set ''the cat sat on the mat'') (word_set ''the cat sat on the rug'') = 4
   \<and> union_size (word_set ''the cat sat on the mat'') (word_set ''the cat sat on the rug'') = 6"
  by (simp add: word_set_examples intersection_size_def union_size_def)

text \<open>
  Claim C4, as the code has it. When the cleaned text is too similar to the last accepted
  one, the job returns without touching the transcriber: no text is emitted and the audio
  buffer, the last accepted text and the dispatch time stay as they were. Only an
  accepted text trims the buffer to its last second of samples and stamps the time.
\<close>

theorem suppressed_leaves_buffer:
  assumes "model_loaded st"
    and "sample_rate * 8 \<le> 10 * length (concat (audio_buffer st))"
    and "transcribe (concat (audio_buffer st)) = Text raw"
    and "py_strip raw \<noteq> []"
  shows "if is_too_similar (clean_transcription (py_strip raw)) (last_transcription st)
         then process_buffer transcribe now st = (None, st)
         else fst (process_buffer transcribe now st) = Some (clean_transcription (py_strip raw))
            \<and> audio_buffer (snd (process_buffer transcribe now st))
                 = [drop (length (concat (audio_buffer st)) - sample_rate)
                      (concat (audio_buffer st))]
            \<and> last_processing_time (snd (process_buffer transcribe now st)) = now
            \<and> last_transcription (snd (process_buffer transcribe now st))
                 = clean_transcription (py_strip raw)"
proof (cases "is_too_similar (clean_transcription (py_strip raw)) (last_transcription st)")
  case True
  have "process_buffer transcribe now st = (None, st)"
    using True by (simp add: process_buffer_text [where transcribe = transcribe, OF assms])
  then show ?thesis using True by simp
next
  case False
  have "process_buffer transcribe now st =
          (Some (clean_transcription (py_strip raw)),
           st\<lparr>last_transcription := clean_transcription (py_strip raw),
              audio_buffer := [drop (length (concat (audio_buffer st)) - sample_rate)
                                 (concat (audio_buffer st))],
              last_processing_time := now\<rparr>)"
    using False by (simp add: process_buffer_text [where transcribe = transcribe, OF assms])
  then show ?thesis using False by simp
qed

theorem suppressed_leaves_buffer_witness:
  "process_buffer (\<lambda>audio. Text ''hello world'') 5000 (heard ''hello world'')
     = (None, heard ''hello world'')"
proof -
  have ne: "py_strip ''hello world'' \<noteq> []"
    by (simp add: clean_examples)
  show ?thesis
    using suppressed_leaves_buffer [where transcribe = "\<lambda>audio. Text ''hello world''"
        and st = "heard ''hello world''" and now = 5000, OF heard_ready(1,2) refl ne]
    by (simp add: heard_ready clean_examples similar_examples)
qed

theorem suppressed_buffer_untrimmed_counterexample:
  "fst (process_buffer (\<lambda>audio. Text ''hello world'') 5000 (heard ''hello world'')) = None
   \<and> length (concat (audio_buffer
        (snd (process_buffer (\<lambda>audio. Text ''hello world'') 5000 (heard ''hello world''))))) = 20000
   \<and> last_processing_time
        (snd (process_buffer (\<lambda>audio. Text ''hello world'') 5000 (heard ''hello world''))) = 0"
  by (simp add: process_buffer_def Let_def heard_def sample_rate_def clean_examples
      similar_examples)

text \<open>
  Claim C9. The similarity check is false for every candidate when the last accepted text
  is empty, so with no accepted transcription yet, a non-empty engine result for a long
  enough buffer is always emitted, cleaned.
\<close>

theorem first_transcription_emitted:
  assumes "model_loaded st"
    and "sample_rate * 8 \<le> 10 * length (concat (audio_buffer st))"
    and "transcribe (concat (audio_buffer st)) = Text raw"
    and "py_strip raw \<noteq> []"
    and "last_transcription st = []"
  shows "\<not> is_too_similar candidate []
     \<and> fst (process_buffer transcribe now st) = Some (clean_transcription (py_strip raw))"
proof -
  have n: "\<not> is_too_similar c []" for c
    by (simp add: is_too_similar_def)
  show ?thesis
    using n by (simp add: process_buffer_text [where transcribe = transcribe, OF assms(1-4)] assms(5))
qed

theorem first_transcription_emitted_witness:
  "fst (process_buffer (\<lambda>audio. Text ''hello world'') 5000 (heard [])) = Some ''hello world''"
proof -
  have ne: "py_strip ''hello world'' \<noteq> []"
    by (simp add: clean_examples)
  show ?thesis
    using first_transcription_emitted [where transcribe = "\<lambda>audio. Text ''hello world''"
        and st = "heard []" and now = 5000, OF heard_ready(1,2) refl ne heard_ready(3)]
    by (simp add: clean_examples)
qed

section \<open>Transcript events of the change-feed pollers\<close>















section \<open>Chat events of the change-feed pollers\<close>










section \<open>The frame of the join operation\<close>

lemma patch_join:
  "patch_fields (join_update name now) d
     = d\<lparr>deaf_student_name := Some name, last_updated := Some now\<rparr>"
  by (simp add: patch_fields_def join_update_def empty_session_def)

lemma map_of_store_patch:
  "map_of store sid = Some (Some d) \<Longrightarrow>
   map_of (store_patch store sid' upd) sid
     = Some (Some (if sid' = sid then patch_fields upd d else d))"
  by (induction store) (auto split: if_splits)

lemma teacher_poll_ignores_join:
  "teacher_poll st (Response 200 (Some (d\<lparr>deaf_student_name := x, last_updated := y\<rparr>)))
     = teacher_poll st (Response 200 (Some d))"
  by (simp add: teacher_poll_def)

lemma check_session_async_store:
  "snd (check_session_async store name code now test_response response patch_response) = store
   \<or> (\<exists>sid'. snd (check_session_async store name code now test_response response patch_response)
         = store_patch store sid' (join_update name now))"
  by (auto simp: check_session_async_def Let_def split: response.splits option.splits)

text \<open>
  Claim C10. The join operation of the deaf student's page sends at most one PATCH, whose
  body names only \<open>deaf_student_name\<close> and \<open>last_updated\<close>. Whatever the requests
  return, every session record of the store keeps all its other fields, among them
  \<open>student_name\<close> and \<open>student_transcript\<close>, and the teacher's listener reacts to the
  record after the join exactly as it does to the record before it.
\<close>

theorem join_leaves_student_fields:
  assumes "map_of store sid = Some (Some d)"
  shows "student_name (join_update name now) = None
     \<and> student_transcript (join_update name now) = None
     \<and> (\<exists>d'. map_of (snd (check_session_async store name code now
                   test_response response patch_response)) sid = Some (Some d')
            \<and> student_name d' = student_name d
            \<and> student_transcript d' = student_transcript d
            \<and> d'\<lparr>deaf_student_name := deaf_student_name d, last_updated := last_updated d\<rparr> = d
            \<and> teacher_poll st (Response 200 (Some d')) = teacher_poll st (Response 200 (Some d)))"
proof -
  let ?after = "snd (check_session_async store name code now test_response response patch_response)"
  have upd: "student_name (join_update name now) = None
     \<and> student_transcript (join_update name now) = None"
    by (simp add: join_update_def empty_session_def)
  have "map_of ?after sid = Some (Some d)
      \<or> map_of ?after sid
           = Some (Some (d\<lparr>deaf_student_name := Some name, last_updated := Some now\<rparr>))"
    using check_session_async_store [of store name code now test_response response patch_response]
  proof
    assume "?after = store"
    then show ?thesis using assms by simp
  next
    assume "\<exists>sid'. ?after = store_patch store sid' (join_update name now)"
    then obtain sid' where a: "?after = store_patch store sid' (join_update name now)" ..
    show ?thesis
      unfolding a map_of_store_patch [OF assms] patch_join by simp
  qed
  then have "\<exists>d'. map_of ?after sid = Some (Some d')
            \<and> student_name d' = student_name d
            \<and> student_transcript d' = student_transcript d
            \<and> d'\<lparr>deaf_student_name := deaf_student_name d, last_updated := last_updated d\<rparr> = d
            \<and> teacher_poll st (Response 200 (Some d')) = teacher_poll st (Response 200 (Some d))"
  proof
    assume "map_of ?after sid = Some (Some d)"
    then show ?thesis by simp
  next
    assume "map_of ?after sid
           = Some (Some (d\<lparr>deaf_student_name := Some name, last_updated := Some now\<rparr>))"
    then show ?thesis by (simp add: teacher_poll_ignores_join)
  qed
  then show ?thesis using upd by blast
qed

theorem join_leaves_student_fields_witness:
  "\<exists>d'. map_of (snd (check_session_async classroom ''Ann'' ''123456'' 1700000000
              (Response 200 None) (Response 200 (Some classroom)) (Response 200 None))) ''s1''
            = Some (Some d')
        \<and> student_name d' = Some ''Bob'' \<and> student_transcript d' = Some ''HELLO ''"
proof -
  have h: "map_of classroom ''s1''
             = Some (Some ((signing ''HELLO '')\<lparr>student_name := Some ''Bob''\<rparr>))"
    by (simp add: classroom_def)
  show ?thesis
    using join_leaves_student_fields [OF h, of "''Ann''" 1700000000 "''123456''"
        "Response 200 None" "Response 200 (Some classroom)" "Response 200 None" listener_init]
    by (auto simp: signing_def)
qed

end
